theory Spec2Isabelle
  imports Main "HOL-Library.Sublist"
begin

section \<open>Data model\<close>

text \<open>
  The program is the generator \<^verbatim>\<open>research(ctx, topic, depth)\<close> of the repository's
  documentation listing. It talks to two collaborators through \<^verbatim>\<open>ctx\<close>: the language
  model behind \<^verbatim>\<open>prompt\<close>, and the child invocations started with \<^verbatim>\<open>ctx.beginRpc\<close>.
  Whatever either of them throws is not caught by the generator, so it ends the invocation.
\<close>

type_synonym handle = nat

datatype error = Failure string

text \<open>
  Modelled from the spec: the listing elides how the subtopic is read from a tool call
  (\<^verbatim>\<open>const subtopic = ...;\<close>) and which fields of the tool call the tool message copies
  (\<^verbatim>\<open>{ role: "tool", ..., content: result }\<close>). The spec gives a decomposition request an
  identifier and a subtopic string, and tags the tool-result entry with that identifier.
\<close>

record tool_call =
  tc_id :: string
  tc_subtopic :: string

text \<open>
  The model's message. \<^verbatim>\<open>tool_calls\<close> is an optional field: \<open>None\<close> when it is absent,
  \<open>Some\<close> of the array otherwise. The test \<^verbatim>\<open>if (response.tool_calls)\<close> is a truthiness
  test, and every array, the empty one too, is truthy.
\<close>

record response =
  content :: string
  tool_calls :: "tool_call list option"

datatype message =
    System string
  | User string
  | Assistant response
  | Tool string string

section \<open>The context\<close>

text \<open>
  \<^verbatim>\<open>ctx\<close> is a parameter of the generator. Its three operations thread a state \<open>'s\<close> of
  the runtime: \<^verbatim>\<open>yield* ctx.run(prompt, messages, ...)\<close> yields the model's message or
  throws, \<^verbatim>\<open>yield* ctx.beginRpc(research, subtopic, depth - 1)\<close> yields a handle, and
  \<^verbatim>\<open>yield* handle\<close> yields the child's result or throws. The arguments elided after
  \<^verbatim>\<open>messages\<close> can only be built from the variables in scope; the topic is already part
  of the second message, so the operation receives the depth beside the messages.
\<close>

record 's "context" =
  ctx_run :: "message list \<Rightarrow> int \<Rightarrow> 's \<Rightarrow> (error + response) \<times> 's"
  ctx_beginRpc :: "string \<Rightarrow> int \<Rightarrow> 's \<Rightarrow> handle \<times> 's"
  ctx_await :: "handle \<Rightarrow> 's \<Rightarrow> (error + string) \<times> 's"

section \<open>Numbers\<close>

text \<open>
  \<^verbatim>\<open>depth\<close> is a JavaScript number, a double, that holds an integer. \<^verbatim>\<open>depth - 1\<close> is the
  exact difference rounded to the nearest double, ties to the even significand. Up to
  \<open>2 ^ 53\<close> every integer is a double; from there on the doubles are \<open>ulp\<close> apart. Values
  that are not integers and the overflow to infinity are left out.
\<close>

fun ulp :: "nat \<Rightarrow> nat" where
  "ulp a = (if a < 2 ^ 53 then 1 else 2 * ulp (a div 2))"

declare ulp.simps [simp del]

definition round_double :: "int \<Rightarrow> int" where
  "round_double x =
     (let a = nat \<bar>x\<bar>; u = ulp a; q = a div u; r = a mod u
      in sgn x * int (u * (if 2 * r < u \<or> 2 * r = u \<and> even q then q else q + 1)))"

definition js_minus :: "int \<Rightarrow> int \<Rightarrow> int" where
  "js_minus x y = round_double (x - y)"

section \<open>The generator\<close>

text \<open>The first \<^verbatim>\<open>for\<close> loop: one \<^verbatim>\<open>beginRpc\<close> per tool call, the pair pushed on \<^verbatim>\<open>handles\<close>.\<close>

fun fan_out ::
  "'s context \<Rightarrow> int \<Rightarrow> tool_call list \<Rightarrow> (tool_call \<times> handle) list \<Rightarrow> 's
    \<Rightarrow> (tool_call \<times> handle) list \<times> 's" where
  "fan_out ctx depth [] handles s = (handles, s)"
| "fan_out ctx depth (tool_call # rest) handles s =
     (case ctx_beginRpc ctx (tc_subtopic tool_call) (js_minus depth 1) s of
        (handle, s') \<Rightarrow> fan_out ctx depth rest (handles @ [(tool_call, handle)]) s')"

text \<open>
  The second \<^verbatim>\<open>for\<close> loop: the handles are awaited one after the other, each result is
  pushed on \<^verbatim>\<open>messages\<close> as a tool message; a handle that throws ends the loop.
\<close>

fun fan_in ::
  "'s context \<Rightarrow> (tool_call \<times> handle) list \<Rightarrow> message list \<Rightarrow> 's
    \<Rightarrow> (error + message list) \<times> 's" where
  "fan_in ctx [] messages s = (Inr messages, s)"
| "fan_in ctx ((tool_call, handle) # rest) messages s =
     (case ctx_await ctx handle s of
        (Inl e, s') \<Rightarrow> (Inl e, s')
      | (Inr result, s') \<Rightarrow> fan_in ctx rest (messages @ [Tool (tc_id tool_call) result]) s')"

text \<open>
  The \<^verbatim>\<open>while (true)\<close> loop. It has no exit but the \<^verbatim>\<open>return\<close> and the exceptions, so
  the model counts its iterations: \<open>None\<close> says that the given number was not enough.
\<close>

fun research_loop ::
  "nat \<Rightarrow> 's context \<Rightarrow> int \<Rightarrow> message list \<Rightarrow> 's \<Rightarrow> (error + string) option \<times> 's" where
  "research_loop 0 ctx depth messages s = (None, s)"
| "research_loop (Suc fuel) ctx depth messages s =
     (case ctx_run ctx messages depth s of
        (Inl e, s1) \<Rightarrow> (Some (Inl e), s1)
      | (Inr response, s1) \<Rightarrow>
          (case tool_calls response of
             Some calls \<Rightarrow>
               (case fan_out ctx depth calls [] s1 of
                  (handles, s2) \<Rightarrow>
                    (case fan_in ctx handles (messages @ [Assistant response]) s2 of
                       (Inl e, s3) \<Rightarrow> (Some (Inl e), s3)
                     | (Inr messages', s3) \<Rightarrow> research_loop fuel ctx depth messages' s3))
           | None \<Rightarrow> (Some (Inr (content response)), s1)))"

definition initial_messages :: "string \<Rightarrow> message list" where
  "initial_messages topic =
     [System ''Break topics into subtopics...'', User (''Research '' @ topic)]"

definition research ::
  "nat \<Rightarrow> 's context \<Rightarrow> string \<Rightarrow> int \<Rightarrow> 's \<Rightarrow> (error + string) option \<times> 's" where
  "research fuel ctx topic depth s = research_loop fuel ctx depth (initial_messages topic) s"

section \<open>A runtime that records what the generator does\<close>

text \<open>
  The environment of one invocation: what the model answers to a history at a depth,
  what the child behind a handle returns or throws, and when that child finishes.
  Histories only grow during an invocation, so a function of the history can stand for
  any sequence of answers.
\<close>

record env =
  prompt :: "message list \<Rightarrow> int \<Rightarrow> error + response"
  child :: "handle \<Rightarrow> error + string"
  finish :: "handle \<Rightarrow> nat"

datatype event =
    is_Consult: Consult (history: "message list")
  | is_Spawn: Spawn handle string int
  | is_Complete: Complete handle
  | is_Await: Await handle

record world =
  trace :: "event list"
  next_handle :: nat
  pending :: "handle list"

text \<open>
  The children that have finished by the time handle \<open>h\<close> is resolved, in the order in
  which they finish.
\<close>

definition finished_by :: "env \<Rightarrow> handle \<Rightarrow> handle list \<Rightarrow> handle list" where
  "finished_by e h hs = sort_key (finish e) (filter (\<lambda>k. finish e k \<le> finish e h) hs)"

definition live_run :: "env \<Rightarrow> message list \<Rightarrow> int \<Rightarrow> world \<Rightarrow> (error + response) \<times> world" where
  "live_run e messages depth w =
     (prompt e messages depth, w\<lparr>trace := trace w @ [Consult messages]\<rparr>)"

definition live_beginRpc :: "string \<Rightarrow> int \<Rightarrow> world \<Rightarrow> handle \<times> world" where
  "live_beginRpc subtopic depth w =
     (next_handle w,
      w\<lparr>trace := trace w @ [Spawn (next_handle w) subtopic depth],
        next_handle := Suc (next_handle w),
        pending := pending w @ [next_handle w]\<rparr>)"

definition live_await :: "env \<Rightarrow> handle \<Rightarrow> world \<Rightarrow> (error + string) \<times> world" where
  "live_await e h w =
     (child e h,
      w\<lparr>trace := trace w @ map Complete (finished_by e h (pending w)) @ [Await h],
        pending := filter (\<lambda>k. \<not> finish e k \<le> finish e h) (pending w)\<rparr>)"

definition live :: "env \<Rightarrow> world context" where
  "live e = \<lparr>ctx_run = live_run e, ctx_beginRpc = live_beginRpc, ctx_await = live_await e\<rparr>"

definition world0 :: world where
  "world0 = \<lparr>trace = [], next_handle = 0, pending = []\<rparr>"

section \<open>Vocabulary of the statements\<close>

text \<open>
  The pairs that the first loop pushes on \<^verbatim>\<open>handles\<close> when the next free handle is
  \<open>n\<close>, the event of one spawn, and the tool message of one resolved child.
\<close>

definition batch :: "handle \<Rightarrow> tool_call list \<Rightarrow> (tool_call \<times> handle) list" where
  "batch n calls = zip calls [n ..< n + length calls]"

definition spawn_event :: "int \<Rightarrow> tool_call \<times> handle \<Rightarrow> event" where
  "spawn_event depth = (\<lambda>(c, h). Spawn h (tc_subtopic c) (js_minus depth 1))"

definition tool_entry :: "env \<Rightarrow> tool_call \<times> handle \<Rightarrow> message" where
  "tool_entry e = (\<lambda>(c, h). Tool (tc_id c) (projr (child e h)))"

definition settling :: "event \<Rightarrow> bool" where
  "settling ev = (is_Complete ev \<or> is_Await ev)"

text \<open>
  A trace keeps fan-out before fan-in when, between two consultations, no spawn follows an
  await. The flag says whether an await has been seen since the last consultation.
\<close>

fun batches_ordered :: "bool \<Rightarrow> event list \<Rightarrow> bool" where
  "batches_ordered awaiting [] = True"
| "batches_ordered awaiting (Consult ms # es) = batches_ordered False es"
| "batches_ordered awaiting (Spawn h subtopic depth # es) =
     (\<not> awaiting \<and> batches_ordered awaiting es)"
| "batches_ordered awaiting (Complete h # es) = batches_ordered awaiting es"
| "batches_ordered awaiting (Await h # es) = batches_ordered True es"

text \<open>The histories that the model was consulted with, in the order of the consultations.\<close>

definition consulted :: "event list \<Rightarrow> message list list" where
  "consulted es = map history (filter is_Consult es)"

fun tool_id :: "message \<Rightarrow> string option" where
  "tool_id (Tool i result) = Some i"
| "tool_id m = None"

text \<open>
  History \<open>new\<close> is history \<open>old\<close> with entries pushed at its end: one assistant message
  that carries tool calls, then one tool message for each of these calls, in their order.
\<close>

definition appended :: "message list \<Rightarrow> message list \<Rightarrow> bool" where
  "appended old new =
     (take (length old) new = old \<and>
      (case drop (length old) new of
         Assistant r # tools \<Rightarrow>
           (case tool_calls r of
              Some calls \<Rightarrow> map tool_id tools = map (\<lambda>c. Some (tc_id c)) calls
            | None \<Rightarrow> False)
       | _ \<Rightarrow> False))"

section \<open>A runtime that replays recorded steps\<close>

text \<open>
  Modelled from the spec: the runtime is not part of the repository. The spec describes it
  as a deterministic-replay wrapper: on resume a step whose result was recorded is not
  executed again, and the same handle resolves to the same result without the child being
  run again. The generator is resumed by running it again from its first line. The runtime numbers
  the steps of an invocation and keeps the result of every completed step under its
  number; a step whose number has a recorded result returns it and executes nothing, any
  other step is executed and recorded. \<open>executed\<close> lists the steps really carried out. A
  child is identified by the number of the step that started it.
\<close>

datatype recorded =
    Answered "error + response"
  | Started handle
  | Settled "error + string"

record journal =
  seq :: nat
  store :: "nat \<rightharpoonup> recorded"
  executed :: "event list"

text \<open>
  Modelled from the spec: the durable step. The model is asked only when no answer is
  recorded for this step.
\<close>

definition durable_run ::
  "env \<Rightarrow> message list \<Rightarrow> int \<Rightarrow> journal \<Rightarrow> (error + response) \<times> journal" where
  "durable_run e messages depth j =
     (case store j (seq j) of
        Some (Answered r) \<Rightarrow> (r, j\<lparr>seq := Suc (seq j)\<rparr>)
      | _ \<Rightarrow>
          (prompt e messages depth,
           j\<lparr>seq := Suc (seq j),
             store := (store j)(seq j \<mapsto> Answered (prompt e messages depth)),
             executed := executed j @ [Consult messages]\<rparr>))"

text \<open>
  Modelled from the spec: spawn. A recorded handle is returned as it is; otherwise the
  child is started and its handle recorded.
\<close>

definition durable_beginRpc :: "string \<Rightarrow> int \<Rightarrow> journal \<Rightarrow> handle \<times> journal" where
  "durable_beginRpc subtopic depth j =
     (case store j (seq j) of
        Some (Started h) \<Rightarrow> (h, j\<lparr>seq := Suc (seq j)\<rparr>)
      | _ \<Rightarrow>
          (seq j,
           j\<lparr>seq := Suc (seq j),
             store := (store j)(seq j \<mapsto> Started (seq j)),
             executed := executed j @ [Spawn (seq j) subtopic depth]\<rparr>))"

text \<open>
  Modelled from the spec: await. A recorded result is returned as it is; otherwise the
  result of the child behind the handle is taken and recorded.
\<close>

definition durable_await :: "env \<Rightarrow> handle \<Rightarrow> journal \<Rightarrow> (error + string) \<times> journal" where
  "durable_await e h j =
     (case store j (seq j) of
        Some (Settled x) \<Rightarrow> (x, j\<lparr>seq := Suc (seq j)\<rparr>)
      | _ \<Rightarrow>
          (child e h,
           j\<lparr>seq := Suc (seq j),
             store := (store j)(seq j \<mapsto> Settled (child e h)),
             executed := executed j @ [Await h]\<rparr>))"

definition durable :: "env \<Rightarrow> journal context" where
  "durable e =
     \<lparr>ctx_run = durable_run e, ctx_beginRpc = durable_beginRpc, ctx_await = durable_await e\<rparr>"

definition journal0 :: journal where
  "journal0 = \<lparr>seq = 0, store = Map.empty, executed = []\<rparr>"

text \<open>
  What the runtime holds of a run whose final journal is \<open>j\<close> when the process is lost
  after \<open>k\<close> steps: the first \<open>k\<close> recorded results and executed steps. The step counter
  lives in the process and starts again at 0.
\<close>

definition suspended :: "nat \<Rightarrow> journal \<Rightarrow> journal" where
  "suspended k j = \<lparr>seq = 0, store = store j |` {..<k}, executed = take k (executed j)\<rparr>"

text \<open>
  The journal of a run after its first \<open>n\<close> steps, read off a later journal \<open>j\<close> of the
  same run; and the journal of a process that was lost after \<open>k\<close> steps and has replayed
  or executed \<open>n\<close> steps since it was started again.
\<close>

definition cut :: "nat \<Rightarrow> journal \<Rightarrow> journal" where
  "cut n j = \<lparr>seq = n, store = store j |` {..<n}, executed = take n (executed j)\<rparr>"

definition resume :: "nat \<Rightarrow> nat \<Rightarrow> journal \<Rightarrow> journal" where
  "resume k n j =
     \<lparr>seq = n, store = store j |` {..<max k n}, executed = take (max k n) (executed j)\<rparr>"

text \<open>A journal of a run that was never interrupted: nothing is recorded ahead of the counter.\<close>

definition fresh :: "journal \<Rightarrow> bool" where
  "fresh j = ((\<forall>i. seq j \<le> i \<longrightarrow> store j i = None) \<and> length (executed j) = seq j)"

text \<open>
  A piece of the generator replays when, started on an uninterrupted journal, it leaves
  an uninterrupted journal that extends the first, and when, started after a loss at any
  step \<open>k\<close> of a run \<open>F\<close> that passes through its final journal, it yields the same
  value and arrives where that run arrives.
\<close>

definition replays :: "(journal \<Rightarrow> 'a \<times> journal) \<Rightarrow> bool" where
  "replays f =
     (\<forall>A x A'. f A = (x, A') \<and> fresh A \<longrightarrow>
        fresh A' \<and> seq A \<le> seq A' \<and> cut (seq A) A' = A \<and>
        (\<forall>F k. cut (seq A') F = A' \<longrightarrow> f (resume k (seq A) F) = (x, resume k (seq A') F)))"

section \<open>Environments of the scenarios\<close>

text \<open>A model that answers every history with one request for subtopic X1.\<close>

definition always_env :: env where
  "always_env =
     \<lparr>prompt = (\<lambda>ms depth.
        Inr \<lparr>content = [], tool_calls = Some [\<lparr>tc_id = ''id1'', tc_subtopic = ''X1''\<rparr>]\<rparr>),
      child = (\<lambda>h. Inr ''A1''),
      finish = (\<lambda>h. 0)\<rparr>"

text \<open>A model that answers every history with the plain answer A.\<close>

definition plain_env :: env where
  "plain_env =
     \<lparr>prompt = (\<lambda>ms depth. Inr \<lparr>content = ''A'', tool_calls = None\<rparr>),
      child = (\<lambda>h. Inr []),
      finish = (\<lambda>h. 0)\<rparr>"

text \<open>
  A model that first answers A with an empty array of tool calls, and B without the
  field once the history has grown.
\<close>

definition empty_calls_env :: env where
  "empty_calls_env =
     \<lparr>prompt = (\<lambda>ms depth.
        if length ms = 2 then Inr \<lparr>content = ''A'', tool_calls = Some []\<rparr>
        else Inr \<lparr>content = ''B'', tool_calls = None\<rparr>),
      child = (\<lambda>h. Inr []),
      finish = (\<lambda>h. 0)\<rparr>"

text \<open>
  The scenario with two requests: the model asks for X1 and X2, then synthesises; the
  child started first returns A1, every other returns A2 and finishes earlier.
\<close>

definition two_calls :: "tool_call list" where
  "two_calls =
     [\<lparr>tc_id = ''id1'', tc_subtopic = ''X1''\<rparr>, \<lparr>tc_id = ''id2'', tc_subtopic = ''X2''\<rparr>]"

definition two_prompt :: "message list \<Rightarrow> int \<Rightarrow> error + response" where
  "two_prompt ms depth =
     (if length ms = 2 then Inr \<lparr>content = [], tool_calls = Some two_calls\<rparr>
      else Inr \<lparr>content = ''Synthesis(A1,A2)'', tool_calls = None\<rparr>)"

definition two_env :: env where
  "two_env =
     \<lparr>prompt = two_prompt,
      child = (\<lambda>h. if h = 0 then Inr ''A1'' else Inr ''A2''),
      finish = (\<lambda>h. if h = 0 then 5 else 1)\<rparr>"

text \<open>The same requests, with two children that throw; the second throws first.\<close>

definition both_fail_env :: env where
  "both_fail_env =
     \<lparr>prompt = two_prompt,
      child = (\<lambda>h. if h = 0 then Inl (Failure ''E0'') else Inl (Failure ''E1'')),
      finish = (\<lambda>h. if h = 0 then 5 else 1)\<rparr>"

text \<open>The same requests, with a second child that throws after the first has returned.\<close>

definition failing_env :: env where
  "failing_env =
     \<lparr>prompt = two_prompt,
      child = (\<lambda>h. if h = 0 then Inr ''A1'' else Inl (Failure ''OracleFailure'')),
      finish = (\<lambda>h. h)\<rparr>"

section \<open>Subtraction on numbers\<close>

lemma ulp_safe: "a < 2 ^ 53 \<Longrightarrow> ulp a = 1"
  by (subst ulp.simps) simp

lemma round_double_safe: "\<bar>x\<bar> < 2 ^ 53 \<Longrightarrow> round_double x = x"
proof -
  assume "\<bar>x\<bar> < 2 ^ 53"
  then have "nat \<bar>x\<bar> < 2 ^ 53" by (simp add: nat_less_iff)
  then have "ulp (nat \<bar>x\<bar>) = 1" by (rule ulp_safe)
  then show ?thesis by (simp add: round_double_def Let_def mult_sgn_abs)
qed

lemma js_minus_safe: "\<bar>x - y\<bar> < 2 ^ 53 \<Longrightarrow> js_minus x y = x - y"
  by (simp add: js_minus_def round_double_safe)

text \<open>Beyond \<open>2 ^ 53\<close> the difference is rounded: to the even neighbour on a tie.\<close>

lemma js_minus_rounds:
  "js_minus 10000000000000000 1 = 10000000000000000"
  "js_minus 9007199254740994 1 = 9007199254740992"
  "js_minus (- 9007199254740992) 1 = - 9007199254740992"
  by (simp_all add: js_minus_def round_double_def Let_def ulp_safe
      ulp.simps [of 9999999999999999] ulp.simps [of 9007199254740993])

section \<open>The recording runtime, step by step\<close>

lemma live_simps [simp]:
  "ctx_run (live e) = live_run e"
  "ctx_beginRpc (live e) = live_beginRpc"
  "ctx_await (live e) = live_await e"
  by (simp_all add: live_def)

lemma batch_Nil [simp]: "batch n [] = []"
  by (simp add: batch_def)

lemma batch_Cons [simp]: "batch n (c # calls) = (c, n) # batch (Suc n) calls"
proof -
  have "[n ..< n + length (c # calls)] = n # [Suc n ..< Suc n + length calls]"
    using upt_conv_Cons [of n "n + length (c # calls)"] by simp
  then show ?thesis by (simp add: batch_def)
qed

lemma map_fst_batch [simp]: "map fst (batch n calls) = calls"
  by (simp add: batch_def)

lemma length_batch [simp]: "length (batch n calls) = length calls"
  by (simp add: batch_def)

lemma fan_out_live_acc:
  "fan_out (live e) depth calls handles w =
     (handles @ batch (next_handle w) calls,
      w\<lparr>trace := trace w @ map (spawn_event depth) (batch (next_handle w) calls),
        next_handle := next_handle w + length calls,
        pending := pending w @ map snd (batch (next_handle w) calls)\<rparr>)"
proof (induction calls arbitrary: handles w)
  case Nil
  then show ?case by simp
next
  case (Cons c calls)
  show ?case
    by (simp add: Cons.IH live_beginRpc_def spawn_event_def)
qed

lemma fan_in_live_world:
  "\<exists>settle pend. snd (fan_in (live e) hs ms w) = w\<lparr>trace := trace w @ settle, pending := pend\<rparr>
     \<and> list_all settling settle"
proof (induction hs arbitrary: ms w)
  case Nil
  have "w = w\<lparr>trace := trace w @ [], pending := pending w\<rparr>" by simp
  then show ?case by (metis fan_in.simps(1) list.pred_inject(1) snd_conv)
next
  case (Cons x hs)
  obtain c h where x: "x = (c, h)" by (cases x)
  show ?case
  proof (cases "child e h")
    case (Inl err)
    then show ?thesis
      by (auto simp: x live_await_def settling_def list_all_iff intro!: exI)
  next
    case (Inr res)
    let ?w1 = "snd (live_await e h w)"
    from Cons.IH [of "ms @ [Tool (tc_id c) res]" ?w1]
    obtain settle pend where
      *: "snd (fan_in (live e) hs (ms @ [Tool (tc_id c) res]) ?w1) = ?w1\<lparr>trace := trace ?w1 @ settle, pending := pend\<rparr>"
      and **: "list_all settling settle" by blast
    have "snd (fan_in (live e) (x # hs) ms w) = w\<lparr>trace := trace w @ (map Complete (finished_by e h (pending w)) @ Await h # settle), pending := pend\<rparr>"
      using * Inr by (simp add: x live_await_def)
    moreover have "list_all settling (map Complete (finished_by e h (pending w)) @ Await h # settle)"
      using ** by (auto simp: settling_def list_all_iff)
    ultimately show ?thesis by blast
  qed
qed

lemma fan_in_live_ok:
  "\<forall>x\<in>set hs. \<not> isl (child e (snd x)) \<Longrightarrow>
     fst (fan_in (live e) hs ms w) = Inr (ms @ map (tool_entry e) hs)"
proof (induction hs arbitrary: ms w)
  case Nil
  then show ?case by simp
next
  case (Cons x hs)
  obtain c h where x: "x = (c, h)" by (cases x)
  from Cons.prems obtain res where res: "child e h = Inr res"
    by (cases "child e h") (auto simp: x)
  from Cons.prems have rest: "\<forall>x\<in>set hs. \<not> isl (child e (snd x))" by simp
  show ?case
    using Cons.IH [OF rest] res by (simp add: x live_await_def tool_entry_def)
qed

lemma fan_in_live_fail:
  "\<forall>x\<in>set pre. \<not> isl (child e (snd x)) \<Longrightarrow> child e h = Inl err \<Longrightarrow>
     fst (fan_in (live e) (pre @ (c, h) # post) ms w) = Inl err"
proof (induction pre arbitrary: ms w)
  case Nil
  then show ?case by (simp add: live_await_def)
next
  case (Cons x pre)
  obtain c' h' where x: "x = (c', h')" by (cases x)
  from Cons.prems obtain res where res: "child e h' = Inr res"
    by (cases "child e h'") (auto simp: x)
  from Cons.prems have rest: "\<forall>x\<in>set pre. \<not> isl (child e (snd x))" by simp
  show ?case
    using Cons.IH [OF rest Cons.prems(2)] res by (simp add: x live_await_def)
qed

lemma fan_in_live_Inr:
  "fst (fan_in (live e) hs ms w) = Inr ms' \<Longrightarrow>
     ms' = ms @ map (tool_entry e) hs \<and> (\<forall>x\<in>set hs. \<not> isl (child e (snd x)))"
proof (induction hs arbitrary: ms w)
  case Nil
  then show ?case by simp
next
  case (Cons x hs)
  obtain c h where x: "x = (c, h)" by (cases x)
  show ?case
  proof (cases "child e h")
    case (Inl err)
    with Cons.prems show ?thesis by (simp add: x live_await_def)
  next
    case (Inr res)
    with Cons.prems have "fst (fan_in (live e) hs (ms @ [Tool (tc_id c) res]) (snd (live_await e h w))) = Inr ms'"
      by (simp add: x live_await_def)
    from Cons.IH [OF this] Inr show ?thesis by (simp add: x tool_entry_def)
  qed
qed

lemma fan_in_live_Inl:
  "fst (fan_in (live e) hs ms w) = Inl err \<Longrightarrow> \<exists>x\<in>set hs. child e (snd x) = Inl err"
proof (induction hs arbitrary: ms w)
  case Nil
  then show ?case by simp
next
  case (Cons x hs)
  obtain c h where x: "x = (c, h)" by (cases x)
  show ?case
  proof (cases "child e h")
    case (Inl err')
    with Cons.prems show ?thesis by (simp add: x live_await_def)
  next
    case (Inr res)
    with Cons.prems have "fst (fan_in (live e) hs (ms @ [Tool (tc_id c) res]) (snd (live_await e h w))) = Inl err"
      by (simp add: x live_await_def)
    from Cons.IH [OF this] show ?thesis by simp
  qed
qed

section \<open>One iteration of the loop\<close>

lemma loop_step:
  obtains
    (oracle_failed) err where
      "prompt e ms depth = Inl err"
      "research_loop (Suc fuel) (live e) depth ms w =
         (Some (Inl err), w\<lparr>trace := trace w @ [Consult ms]\<rparr>)"
  | (answered) r where
      "prompt e ms depth = Inr r" "tool_calls r = None"
      "research_loop (Suc fuel) (live e) depth ms w =
         (Some (Inr (content r)), w\<lparr>trace := trace w @ [Consult ms]\<rparr>)"
  | (child_failed) r calls settle w' err w2 where
      "prompt e ms depth = Inr r" "tool_calls r = Some calls"
      "list_all settling settle"
      "trace w' = trace w @ Consult ms # map (spawn_event depth) (batch (next_handle w) calls) @ settle"
      "\<exists>x\<in>set (batch (next_handle w) calls). child e (snd x) = Inl err"
      "fst (fan_in (live e) (batch (next_handle w) calls) (ms @ [Assistant r]) w2) = Inl err"
      "research_loop (Suc fuel) (live e) depth ms w = (Some (Inl err), w')"
  | (continued) r calls settle w' where
      "prompt e ms depth = Inr r" "tool_calls r = Some calls"
      "list_all settling settle"
      "trace w' = trace w @ Consult ms # map (spawn_event depth) (batch (next_handle w) calls) @ settle"
      "\<forall>x\<in>set (batch (next_handle w) calls). \<not> isl (child e (snd x))"
      "research_loop (Suc fuel) (live e) depth ms w =
         research_loop fuel (live e) depth
           (ms @ Assistant r # map (tool_entry e) (batch (next_handle w) calls)) w'"
proof (cases "prompt e ms depth")
  case (Inl err)
  then show ?thesis by (intro oracle_failed [of err]) (simp_all add: live_run_def)
next
  case (Inr r)
  show ?thesis
  proof (cases "tool_calls r")
    case None
    with Inr show ?thesis by (intro answered [of r]) (simp_all add: live_run_def)
  next
    case (Some calls)
    let ?hs = "batch (next_handle w) calls"
    obtain w2 where
      w2: "fan_out (live e) depth calls [] (w\<lparr>trace := trace w @ [Consult ms]\<rparr>) = (?hs, w2)"
      and tr2: "trace w2 = trace w @ Consult ms # map (spawn_event depth) ?hs"
      by (simp add: fan_out_live_acc)
    let ?res = "fan_in (live e) ?hs (ms @ [Assistant r]) w2"
    obtain settle pend where
      w3: "snd ?res = w2\<lparr>trace := trace w2 @ settle, pending := pend\<rparr>"
      and settle: "list_all settling settle"
      using fan_in_live_world [of e ?hs "ms @ [Assistant r]" w2] by blast
    have tr3: "trace (snd ?res) = trace w @ Consult ms # map (spawn_event depth) ?hs @ settle"
      by (simp add: w3 tr2)
    have unfold: "research_loop (Suc fuel) (live e) depth ms w =
        (case ?res of (Inl err, s3) \<Rightarrow> (Some (Inl err), s3)
         | (Inr ms', s3) \<Rightarrow> research_loop fuel (live e) depth ms' s3)"
      using Inr Some w2 by (simp add: live_run_def)
    show ?thesis
    proof (cases "fst ?res")
      case (Inl err)
      then have "research_loop (Suc fuel) (live e) depth ms w = (Some (Inl err), snd ?res)"
        unfolding unfold by (cases ?res) simp
      moreover from Inl have "\<exists>x\<in>set ?hs. child e (snd x) = Inl err"
        by (rule fan_in_live_Inl)
      ultimately show ?thesis
        using \<open>prompt e ms depth = Inr r\<close> Some settle tr3 Inl
        by (intro child_failed [of r calls settle "snd ?res" err w2])
    next
      case (Inr ms')
      from fan_in_live_Inr [OF this]
      have ms': "ms' = ms @ Assistant r # map (tool_entry e) ?hs"
        and ok: "\<forall>x\<in>set ?hs. \<not> isl (child e (snd x))" by simp_all
      have "research_loop (Suc fuel) (live e) depth ms w =
          research_loop fuel (live e) depth ms' (snd ?res)"
        unfolding unfold using Inr by (cases ?res) simp
      with \<open>prompt e ms depth = Inr r\<close> Some settle tr3 ok ms' show ?thesis
        by (intro continued [of r calls settle "snd ?res"]) simp_all
    qed
  qed
qed

section \<open>Traces of the loop\<close>

lemma loop_trace_extends:
  "\<exists>es. trace (snd (research_loop fuel (live e) depth ms w)) = trace w @ es"
proof (induction fuel arbitrary: ms w)
  case 0
  show ?case by simp
next
  case (Suc fuel)
  show ?case
  proof (cases rule: loop_step [of e ms depth fuel w])
    case (continued r calls settle w')
    from Suc.IH [of "ms @ Assistant r # map (tool_entry e) (batch (next_handle w) calls)" w']
    show ?thesis unfolding continued(6) by (auto simp: continued(4))
  qed (auto simp del: research_loop.simps)
qed

lemma loop_trace_head:
  "\<exists>es. trace (snd (research_loop (Suc fuel) (live e) depth ms w)) = trace w @ Consult ms # es"
proof (cases rule: loop_step [of e ms depth fuel w])
  case (continued r calls settle w')
  from loop_trace_extends [of fuel e depth "ms @ Assistant r # map (tool_entry e) (batch (next_handle w) calls)" w']
  show ?thesis unfolding continued(6) by (auto simp: continued(4))
qed (auto simp del: research_loop.simps)

lemma batches_ordered_spawns:
  "batches_ordered False (map (spawn_event depth) hs @ es) = batches_ordered False es"
  by (induction hs) (auto simp: spawn_event_def)

lemma batches_ordered_fresh:
  "es = [] \<or> is_Consult (hd es) \<Longrightarrow> batches_ordered a es = batches_ordered False es"
  by (cases es) (auto simp: is_Consult_def)

lemma batches_ordered_settle:
  "list_all settling settle \<Longrightarrow> es = [] \<or> is_Consult (hd es) \<Longrightarrow>
     batches_ordered a (settle @ es) = batches_ordered False es"
proof (induction settle arbitrary: a)
  case Nil
  then show ?case by (simp add: batches_ordered_fresh [of es a])
next
  case (Cons ev settle)
  then show ?case by (cases ev) (simp_all add: settling_def)
qed

lemma loop_batches_ordered:
  "\<exists>es. trace (snd (research_loop fuel (live e) depth ms w)) = trace w @ es
     \<and> (es = [] \<or> is_Consult (hd es)) \<and> batches_ordered False es"
proof (induction fuel arbitrary: ms w)
  case 0
  show ?case by simp
next
  case (Suc fuel)
  show ?case
  proof (cases rule: loop_step [of e ms depth fuel w])
    case (oracle_failed err)
    then show ?thesis by (simp del: research_loop.simps)
  next
    case (answered r)
    then show ?thesis by (simp del: research_loop.simps)
  next
    case (child_failed r calls settle w' err w2)
    have "batches_ordered False (Consult ms # map (spawn_event depth) (batch (next_handle w) calls) @ settle @ [])"
      using child_failed(3) by (simp add: batches_ordered_spawns batches_ordered_settle del: append_Nil2)
    then show ?thesis using child_failed by (simp del: research_loop.simps)
  next
    case (continued r calls settle w')
    from Suc.IH [of "ms @ Assistant r # map (tool_entry e) (batch (next_handle w) calls)" w']
    obtain es where es: "trace (snd (research_loop (Suc fuel) (live e) depth ms w)) = trace w' @ es"
      "es = [] \<or> is_Consult (hd es)" "batches_ordered False es"
      unfolding continued(6) by blast
    have "batches_ordered False (Consult ms # map (spawn_event depth) (batch (next_handle w) calls) @ settle @ es)"
      using continued(3) es(2,3) by (simp add: batches_ordered_spawns batches_ordered_settle)
    then show ?thesis using es(1) continued(4) by (simp del: research_loop.simps)
  qed
qed

lemma consulted_simps [simp]:
  "consulted [] = []"
  "consulted (Consult ms # es) = ms # consulted es"
  "consulted (map (spawn_event depth) hs @ es) = consulted es"
  by (simp_all add: consulted_def spawn_event_def split_def)

lemma consulted_settle [simp]: "list_all settling settle \<Longrightarrow> consulted (settle @ es) = consulted es"
  by (induction settle) (auto simp: consulted_def settling_def)

lemma tool_id_entries:
  "map tool_id (map (tool_entry e) (batch n calls)) = map (\<lambda>c. Some (tc_id c)) calls"
  by (induction calls arbitrary: n) (simp_all add: tool_entry_def)

lemma appended_iteration:
  "tool_calls r = Some calls \<Longrightarrow>
     appended ms (ms @ Assistant r # map (tool_entry e) (batch n calls))"
  using tool_id_entries [of e n calls] by (simp add: appended_def del: map_map)

lemma loop_history_chain:
  "\<exists>es. trace (snd (research_loop fuel (live e) depth ms w)) = trace w @ es
     \<and> (consulted es = [] \<or> hd (consulted es) = ms) \<and> successively appended (consulted es)"
proof (induction fuel arbitrary: ms w)
  case 0
  show ?case by simp
next
  case (Suc fuel)
  show ?case
  proof (cases rule: loop_step [of e ms depth fuel w])
    case (oracle_failed err)
    then show ?thesis by (simp del: research_loop.simps)
  next
    case (answered r)
    then show ?thesis by (simp del: research_loop.simps)
  next
    case (child_failed r calls settle w' err w2)
    have "consulted (Consult ms # map (spawn_event depth) (batch (next_handle w) calls) @ settle @ []) = [ms]"
      using child_failed(3) by (simp del: append_Nil2)
    then show ?thesis using child_failed by (simp del: research_loop.simps)
  next
    case (continued r calls settle w')
    let ?ms' = "ms @ Assistant r # map (tool_entry e) (batch (next_handle w) calls)"
    from Suc.IH [of ?ms' w']
    obtain es where es: "trace (snd (research_loop (Suc fuel) (live e) depth ms w)) = trace w' @ es"
      "consulted es = [] \<or> hd (consulted es) = ?ms'" "successively appended (consulted es)"
      unfolding continued(6) by blast
    let ?all = "Consult ms # map (spawn_event depth) (batch (next_handle w) calls) @ settle @ es"
    have c: "consulted ?all = ms # consulted es"
      using continued(3) by simp
    have "successively appended (ms # consulted es)"
      using es(2,3) appended_iteration [OF continued(2)]
      by (cases "consulted es") auto
    then show ?thesis using es(1) continued(4) c by (simp del: research_loop.simps)
  qed
qed

lemma loop_success_origin:
  "research_loop fuel (live e) depth ms w = (Some (Inr s), w') \<Longrightarrow>
     \<exists>es ms' r. trace w' = trace w @ es @ [Consult ms']
       \<and> prompt e ms' depth = Inr r \<and> tool_calls r = None \<and> content r = s"
proof (induction fuel arbitrary: ms w)
  case 0
  then show ?case by simp
next
  case (Suc fuel)
  show ?case
  proof (cases rule: loop_step [of e ms depth fuel w])
    case (oracle_failed err)
    with Suc.prems show ?thesis by (simp del: research_loop.simps)
  next
    case (answered r)
    with Suc.prems have "trace w' = trace w @ [] @ [Consult ms]" "content r = s"
      by (auto simp del: research_loop.simps)
    with answered show ?thesis by blast
  next
    case (child_failed r calls settle w1 err w2)
    with Suc.prems show ?thesis by (simp del: research_loop.simps)
  next
    case (continued r calls settle w1)
    with Suc.prems have "research_loop fuel (live e) depth
        (ms @ Assistant r # map (tool_entry e) (batch (next_handle w) calls)) w1 = (Some (Inr s), w')"
      by (simp del: research_loop.simps)
    from Suc.IH [OF this] obtain es ms' r' where
      "trace w' = trace w1 @ es @ [Consult ms']"
      "prompt e ms' depth = Inr r'" "tool_calls r' = None" "content r' = s" by blast
    moreover from this continued(4)
    have "trace w' = trace w @ (Consult ms # map (spawn_event depth) (batch (next_handle w) calls) @ settle @ es) @ [Consult ms']"
      by simp
    ultimately show ?thesis by blast
  qed
qed

lemma loop_failure_origin:
  "fst (research_loop fuel (live e) depth ms w) = Some (Inl err) \<Longrightarrow>
     (\<exists>ms'. prompt e ms' depth = Inl err) \<or> (\<exists>h. child e h = Inl err)"
proof (induction fuel arbitrary: ms w)
  case 0
  then show ?case by simp
next
  case (Suc fuel)
  show ?case
  proof (cases rule: loop_step [of e ms depth fuel w])
    case (oracle_failed err')
    with Suc.prems show ?thesis by (auto simp del: research_loop.simps)
  next
    case (answered r)
    with Suc.prems show ?thesis by (simp del: research_loop.simps)
  next
    case (child_failed r calls settle w1 err' w2)
    with Suc.prems show ?thesis by (auto simp del: research_loop.simps)
  next
    case (continued r calls settle w1)
    with Suc.prems Suc.IH show ?thesis by (simp del: research_loop.simps)
  qed
qed

lemma loop_batch_shape:
  assumes "prompt e ms depth = Inr r" and "tool_calls r = Some calls"
  shows "\<exists>settle rest.
     trace (snd (research_loop (Suc fuel) (live e) depth ms w)) =
       trace w @ Consult ms # map (spawn_event depth) (batch (next_handle w) calls) @ settle @ rest
     \<and> list_all settling settle
     \<and> (rest = [] \<or>
          (\<forall>x\<in>set (batch (next_handle w) calls). \<not> isl (child e (snd x))) \<and> 0 < fuel \<and>
          (\<exists>es. rest = Consult (ms @ Assistant r # map (tool_entry e) (batch (next_handle w) calls)) # es))"
proof (cases rule: loop_step [of e ms depth fuel w])
  case (oracle_failed err)
  with assms show ?thesis by simp
next
  case (answered r')
  with assms show ?thesis by simp
next
  case (child_failed r' calls' settle w' err w2)
  with assms have "r' = r" "calls' = calls" by simp_all
  with child_failed have "trace (snd (research_loop (Suc fuel) (live e) depth ms w)) =
       trace w @ Consult ms # map (spawn_event depth) (batch (next_handle w) calls) @ settle @ []"
    by (simp del: research_loop.simps)
  with child_failed(3) show ?thesis by blast
next
  case (continued r' calls' settle w')
  with assms have same: "r' = r" "calls' = calls" by simp_all
  let ?ms' = "ms @ Assistant r # map (tool_entry e) (batch (next_handle w) calls)"
  have eq: "research_loop (Suc fuel) (live e) depth ms w = research_loop fuel (live e) depth ?ms' w'"
    using continued(6) same by simp
  show ?thesis
  proof (cases fuel)
    case 0
    then have "trace (snd (research_loop (Suc fuel) (live e) depth ms w)) =
       trace w @ Consult ms # map (spawn_event depth) (batch (next_handle w) calls) @ settle @ []"
      unfolding eq using continued(4) same by simp
    with continued(3) show ?thesis by blast
  next
    case (Suc n)
    from loop_trace_head [of n e depth ?ms' w'] obtain es where
      "trace (snd (research_loop fuel (live e) depth ?ms' w')) = trace w' @ Consult ?ms' # es"
      using Suc by blast
    then have "trace (snd (research_loop (Suc fuel) (live e) depth ms w)) =
       trace w @ Consult ms # map (spawn_event depth) (batch (next_handle w) calls) @ settle @ Consult ?ms' # es"
      unfolding eq using continued(4) same by simp
    moreover have "\<forall>x\<in>set (batch (next_handle w) calls). \<not> isl (child e (snd x))"
      using continued(5) same by simp
    ultimately show ?thesis using continued(3) Suc by blast
  qed
qed

lemma two_batch: "batch 0 two_calls =
    [(\<lparr>tc_id = ''id1'', tc_subtopic = ''X1''\<rparr>, 0), (\<lparr>tc_id = ''id2'', tc_subtopic = ''X2''\<rparr>, Suc 0)]"
  by (simp add: two_calls_def)

lemma loop_next_consult:
  assumes "prompt e ms depth = Inr r" and "tool_calls r = Some calls"
    and "\<forall>x\<in>set (batch (next_handle w) calls). \<not> isl (child e (snd x))"
  shows "\<exists>settle rest.
     trace (snd (research_loop (Suc (Suc fuel)) (live e) depth ms w)) =
       trace w @ Consult ms # map (spawn_event depth) (batch (next_handle w) calls) @ settle
         @ Consult (ms @ Assistant r # map (tool_entry e) (batch (next_handle w) calls)) # rest
     \<and> list_all settling settle"
proof (cases rule: loop_step [of e ms depth "Suc fuel" w])
  case (oracle_failed err)
  with assms show ?thesis by simp
next
  case (answered r')
  with assms show ?thesis by simp
next
  case (child_failed r' calls' settle w' err w2)
  with assms have "calls' = calls" by simp
  with child_failed(5) assms(3) show ?thesis by auto
next
  case (continued r' calls' settle w')
  with assms have same: "r' = r" "calls' = calls" by simp_all
  let ?ms' = "ms @ Assistant r # map (tool_entry e) (batch (next_handle w) calls)"
  have eq: "research_loop (Suc (Suc fuel)) (live e) depth ms w =
      research_loop (Suc fuel) (live e) depth ?ms' w'"
    using continued(6) same by simp
  from loop_trace_head [of fuel e depth ?ms' w'] obtain es where
    "trace (snd (research_loop (Suc fuel) (live e) depth ?ms' w')) = trace w' @ Consult ?ms' # es"
    by blast
  then have "trace (snd (research_loop (Suc (Suc fuel)) (live e) depth ms w)) =
     trace w @ Consult ms # map (spawn_event depth) (batch (next_handle w) calls) @ settle
       @ Consult ?ms' # es"
    unfolding eq using continued(4) same by simp
  with continued(3) show ?thesis by blast
qed

lemma fan_in_live_fail_world:
  "\<forall>x\<in>set pre. \<not> isl (child e (snd x)) \<Longrightarrow> child e h = Inl err \<Longrightarrow>
     \<exists>settle pend.
       fan_in (live e) (pre @ (c, h) # post) ms w =
         (Inl err, w\<lparr>trace := trace w @ settle, pending := pend\<rparr>)
       \<and> list_all settling settle
       \<and> filter is_Await settle = map (\<lambda>x. Await (snd x)) (pre @ [(c, h)])"
proof (induction pre arbitrary: ms w)
  case Nil
  let ?settle = "map Complete (finished_by e h (pending w)) @ [Await h]"
  have "fan_in (live e) ([] @ (c, h) # post) ms w =
      (Inl err, w\<lparr>trace := trace w @ ?settle,
         pending := filter (\<lambda>k. \<not> finish e k \<le> finish e h) (pending w)\<rparr>)"
    using Nil(2) by (simp add: live_await_def)
  moreover have "list_all settling ?settle"
    by (auto simp: settling_def list_all_iff)
  moreover have "filter is_Await ?settle = map (\<lambda>x. Await (snd x)) ([] @ [(c, h)])"
    by (simp add: filter_map comp_def)
  ultimately show ?case by blast
next
  case (Cons x pre)
  obtain c' h' where x: "x = (c', h')" by (cases x)
  from Cons.prems obtain res where res: "child e h' = Inr res"
    by (cases "child e h'") (auto simp: x)
  from Cons.prems have rest: "\<forall>x\<in>set pre. \<not> isl (child e (snd x))" by simp
  let ?w1 = "snd (live_await e h' w)"
  let ?first = "map Complete (finished_by e h' (pending w)) @ [Await h']"
  have w1: "?w1 = w\<lparr>trace := trace w @ ?first,
      pending := filter (\<lambda>k. \<not> finish e k \<le> finish e h') (pending w)\<rparr>"
    by (simp add: live_await_def)
  from Cons.IH [OF rest Cons.prems(2), of "ms @ [Tool (tc_id c') res]" ?w1]
  obtain settle pend where
    run: "fan_in (live e) (pre @ (c, h) # post) (ms @ [Tool (tc_id c') res]) ?w1 =
       (Inl err, ?w1\<lparr>trace := trace ?w1 @ settle, pending := pend\<rparr>)"
    and ok: "list_all settling settle"
    and aw: "filter is_Await settle = map (\<lambda>x. Await (snd x)) (pre @ [(c, h)])"
    by blast
  have "fan_in (live e) ((x # pre) @ (c, h) # post) ms w =
      (Inl err, w\<lparr>trace := trace w @ (?first @ settle), pending := pend\<rparr>)"
    using run res by (simp add: x w1 live_await_def)
  moreover have "list_all settling (?first @ settle)"
    using ok by (auto simp: settling_def list_all_iff)
  moreover have "filter is_Await (?first @ settle) = map (\<lambda>x. Await (snd x)) ((x # pre) @ [(c, h)])"
    using aw by (simp add: filter_map comp_def x)
  ultimately show ?case by blast
qed

text \<open>The model that always requests a subtopic keeps the loop running for every count.\<close>

lemma always_env_loop: "fst (research_loop fuel (live always_env) depth ms w) = None"
  by (induction fuel arbitrary: ms w)
    (simp_all add: live_run_def live_beginRpc_def live_await_def always_env_def)

lemma always_env_never_returns: "fst (research fuel (live always_env) topic depth w) = None"
  by (simp add: research_def always_env_loop)

text \<open>The two checks on traces do reject: a spawn after an await, a history that was cut or
  that grew by something other than an answer with its tool messages.\<close>

lemma batches_ordered_rejects:
  "\<not> batches_ordered False [Consult ms, Spawn 0 s d, Await 0, Spawn 1 s' d]"
  by simp

lemma appended_rejects:
  "\<not> appended [System a, User b] [System a, Assistant r]"
  "\<not> appended [System a, User b] [System a, User b, Tool i x]"
  by (simp_all add: appended_def)

section \<open>Replay of recorded steps\<close>

lemma durable_simps [simp]:
  "ctx_run (durable e) = durable_run e"
  "ctx_beginRpc (durable e) = durable_beginRpc"
  "ctx_await (durable e) = durable_await e"
  by (simp_all add: durable_def)

lemma cut_cut: "n \<le> m \<Longrightarrow> cut n (cut m j) = cut n j"
  by (simp add: cut_def min_def restrict_map_def fun_eq_iff)

lemma cut_self: "fresh j \<Longrightarrow> cut (seq j) j = j"
  by (cases j) (auto simp: cut_def fresh_def restrict_map_def fun_eq_iff)

lemma cut_through:
  assumes "cut m F = A'" and "cut n A' = A" and "n \<le> m"
  shows "cut n F = A"
  using assms cut_cut [of n m F] by simp

lemma resume_ahead: "fresh j \<Longrightarrow> resume k (seq j) j = j"
  by (cases j) (auto simp: resume_def fresh_def restrict_map_def fun_eq_iff max_def)

lemma step_fresh:
  assumes "fresh A"
  shows "store A (seq A) = None"
  using assms by (auto simp: fresh_def)

lemma step_mono:
  assumes "fresh A"
    and "A' = A\<lparr>seq := Suc (seq A), store := (store A)(seq A \<mapsto> v), executed := executed A @ [ev]\<rparr>"
  shows "fresh A' \<and> seq A' = Suc (seq A) \<and> cut (seq A) A' = A"
  using assms
  by (cases A) (auto simp: fresh_def cut_def restrict_map_def fun_eq_iff)

lemma step_replay:
  assumes "fresh A"
    and "cut (Suc (seq A)) F =
      A\<lparr>seq := Suc (seq A), store := (store A)(seq A \<mapsto> v), executed := executed A @ [ev]\<rparr>"
  shows "seq A < k \<Longrightarrow> store (resume k (seq A) F) (seq A) = Some v"
    and "seq A < k \<Longrightarrow> (resume k (seq A) F)\<lparr>seq := Suc (seq A)\<rparr> = resume k (Suc (seq A)) F"
    and "k \<le> seq A \<Longrightarrow> store (resume k (seq A) F) (seq A) = None"
    and "k \<le> seq A \<Longrightarrow> (resume k (seq A) F)\<lparr>seq := Suc (seq A),
          store := (store (resume k (seq A) F))(seq A \<mapsto> v),
          executed := executed (resume k (seq A) F) @ [ev]\<rparr> = resume k (Suc (seq A)) F"
proof -
  from assms(2) have "store (cut (Suc (seq A)) F) =
      store (A\<lparr>seq := Suc (seq A), store := (store A)(seq A \<mapsto> v), executed := executed A @ [ev]\<rparr>)"
    by simp
  then have st: "store F |` {..<Suc (seq A)} = (store A)(seq A \<mapsto> v)"
    by (simp add: cut_def)
  from assms(2) have "executed (cut (Suc (seq A)) F) =
      executed (A\<lparr>seq := Suc (seq A), store := (store A)(seq A \<mapsto> v), executed := executed A @ [ev]\<rparr>)"
    by simp
  then have ex: "take (Suc (seq A)) (executed F) = executed A @ [ev]"
    by (simp add: cut_def)
  from st have "(store F |` {..<Suc (seq A)}) (seq A) = ((store A)(seq A \<mapsto> v)) (seq A)"
    by simp
  then have Fn: "store F (seq A) = Some v" by simp
  have len: "length (executed A) = seq A" using assms(1) by (simp add: fresh_def)
  from ex have "take (seq A) (take (Suc (seq A)) (executed F)) = take (seq A) (executed A @ [ev])"
    by simp
  then have ex': "take (seq A) (executed F) = executed A"
    using len by (simp add: min_def)
  show "seq A < k \<Longrightarrow> store (resume k (seq A) F) (seq A) = Some v"
    using Fn by (simp add: resume_def)
  show "seq A < k \<Longrightarrow> (resume k (seq A) F)\<lparr>seq := Suc (seq A)\<rparr> = resume k (Suc (seq A)) F"
  proof -
    assume "seq A < k"
    then have "max k (seq A) = k" "max k (Suc (seq A)) = k" by simp_all
    then show ?thesis by (simp add: resume_def)
  qed
  show "k \<le> seq A \<Longrightarrow> store (resume k (seq A) F) (seq A) = None"
    by (simp add: resume_def max_def)
  show "k \<le> seq A \<Longrightarrow> (resume k (seq A) F)\<lparr>seq := Suc (seq A),
          store := (store (resume k (seq A) F))(seq A \<mapsto> v),
          executed := executed (resume k (seq A) F) @ [ev]\<rparr> = resume k (Suc (seq A)) F"
  proof -
    assume "k \<le> seq A"
    then have m: "max k (seq A) = seq A" "max k (Suc (seq A)) = Suc (seq A)" by simp_all
    have stA: "store F |` {..<seq A} = store A"
    proof
      fix i
      show "(store F |` {..<seq A}) i = store A i"
      proof (cases "i < seq A")
        case True
        then have "(store F |` {..<Suc (seq A)}) i = store A i"
          unfolding st by simp
        with True show ?thesis by simp
      next
        case False
        with assms(1) show ?thesis by (simp add: fresh_def)
      qed
    qed
    show ?thesis
      unfolding resume_def m by (simp add: stA ex' st ex)
  qed
qed

lemma seq_resume [simp]: "seq (resume k n F) = n"
  by (simp add: resume_def)

lemma replays_step:
  assumes live_step: "\<And>j. store j (seq j) = None \<Longrightarrow>
      f j = (x (seq j), j\<lparr>seq := Suc (seq j), store := (store j)(seq j \<mapsto> v (seq j)),
        executed := executed j @ [ev (seq j)]\<rparr>)"
    and replay_step: "\<And>j. store j (seq j) = Some (v (seq j)) \<Longrightarrow>
      f j = (x (seq j), j\<lparr>seq := Suc (seq j)\<rparr>)"
  shows "replays f"
  unfolding replays_def
proof (intro allI impI, elim conjE)
  fix A y A'
  assume run: "f A = (y, A')" and fr: "fresh A"
  let ?n = "seq A"
  let ?A' = "A\<lparr>seq := Suc ?n, store := (store A)(?n \<mapsto> v ?n), executed := executed A @ [ev ?n]\<rparr>"
  from live_step [OF step_fresh [OF fr]] run have y: "y = x ?n" and A': "A' = ?A'" by simp_all
  from step_mono [OF fr A'] have mono: "fresh A'" "seq A' = Suc ?n" "cut ?n A' = A"
    by simp_all
  have sim: "f (resume k ?n F) = (y, resume k (seq A') F)" if F: "cut (seq A') F = A'" for F k
  proof -
    from F have F': "cut (Suc ?n) F = ?A'" using mono(2) A' by simp
    show ?thesis
    proof (cases "k \<le> ?n")
      case True
      from step_replay(3) [OF fr F' True]
      have "f (resume k ?n F) = (x ?n, (resume k ?n F)\<lparr>seq := Suc ?n,
          store := (store (resume k ?n F))(?n \<mapsto> v ?n),
          executed := executed (resume k ?n F) @ [ev ?n]\<rparr>)"
        using live_step [of "resume k ?n F"] by simp
      with step_replay(4) [OF fr F' True] show ?thesis by (simp add: y mono(2))
    next
      case False
      then have lt: "?n < k" by simp
      from step_replay(1) [OF fr F' lt]
      have "f (resume k ?n F) = (x ?n, (resume k ?n F)\<lparr>seq := Suc ?n\<rparr>)"
        using replay_step [of "resume k ?n F"] by simp
      with step_replay(2) [OF fr F' lt] show ?thesis by (simp add: y mono(2))
    qed
  qed
  from mono sim show "fresh A' \<and> seq A \<le> seq A' \<and> cut (seq A) A' = A \<and>
        (\<forall>F k. cut (seq A') F = A' \<longrightarrow> f (resume k (seq A) F) = (y, resume k (seq A') F))"
    by simp
qed

lemma replays_run: "replays (durable_run e ms depth)"
  by (rule replays_step [where x = "\<lambda>n. prompt e ms depth"
        and v = "\<lambda>n. Answered (prompt e ms depth)" and ev = "\<lambda>n. Consult ms"])
    (simp_all add: durable_run_def)

lemma replays_beginRpc: "replays (durable_beginRpc subtopic depth)"
  by (rule replays_step [where x = "\<lambda>n. n" and v = Started
        and ev = "\<lambda>n. Spawn n subtopic depth"])
    (simp_all add: durable_beginRpc_def)

lemma replays_await: "replays (durable_await e h)"
  by (rule replays_step [where x = "\<lambda>n. child e h" and v = "\<lambda>n. Settled (child e h)"
        and ev = "\<lambda>n. Await h"])
    (simp_all add: durable_await_def)

lemma replays_return: "replays (\<lambda>j. (x, j))"
  by (auto simp: replays_def cut_self)

lemma replays_bind:
  assumes f: "replays f" and g: "\<And>x. replays (g x)"
  shows "replays (\<lambda>j. case f j of (x, j') \<Rightarrow> g x j')"
  unfolding replays_def
proof (intro allI impI, elim conjE)
  fix A y A'
  assume run: "(case f A of (x, j') \<Rightarrow> g x j') = (y, A')" and fr: "fresh A"
  obtain x A1 where f1: "f A = (x, A1)" by (cases "f A")
  with run have g1: "g x A1 = (y, A')" by simp
  from f f1 fr have a: "fresh A1" "seq A \<le> seq A1" "cut (seq A) A1 = A"
    and fsim: "\<And>F k. cut (seq A1) F = A1 \<Longrightarrow> f (resume k (seq A) F) = (x, resume k (seq A1) F)"
    unfolding replays_def by blast+
  from g [of x] g1 a(1) have b: "fresh A'" "seq A1 \<le> seq A'" "cut (seq A1) A' = A1"
    and gsim: "\<And>F k. cut (seq A') F = A' \<Longrightarrow> g x (resume k (seq A1) F) = (y, resume k (seq A') F)"
    unfolding replays_def by blast+
  have c: "cut (seq A) A' = A"
    using cut_cut [OF a(2), of A'] b(3) a(3) by simp
  have sim: "(case f (resume k (seq A) F) of (x, j') \<Rightarrow> g x j') = (y, resume k (seq A') F)"
    if F: "cut (seq A') F = A'" for F k
  proof -
    have "cut (seq A1) F = A1"
      using cut_cut [OF b(2), of F] F b(3) by simp
    from fsim [OF this] gsim [OF F] show ?thesis by simp
  qed
  from b(1) a(2) b(2) c sim
  show "fresh A' \<and> seq A \<le> seq A' \<and> cut (seq A) A' = A \<and>
        (\<forall>F k. cut (seq A') F = A' \<longrightarrow>
          (case f (resume k (seq A) F) of (x, j') \<Rightarrow> g x j') = (y, resume k (seq A') F))"
    by simp
qed

lemma replays_fan_out: "replays (fan_out (durable e) depth calls handles)"
proof (induction calls arbitrary: handles)
  case Nil
  have "fan_out (durable e) depth [] handles = (\<lambda>j. (handles, j))" by (rule ext) simp
  then show ?case by (simp add: replays_return)
next
  case (Cons c calls)
  have "fan_out (durable e) depth (c # calls) handles =
      (\<lambda>j. case durable_beginRpc (tc_subtopic c) (js_minus depth 1) j of
         (h, j') \<Rightarrow> fan_out (durable e) depth calls (handles @ [(c, h)]) j')"
    by (rule ext) simp
  then show ?case
    using replays_bind [OF replays_beginRpc, of "\<lambda>h. fan_out (durable e) depth calls (handles @ [(c, h)])"]
      Cons.IH by simp
qed

lemma replays_fan_in: "replays (fan_in (durable e) handles ms)"
proof (induction handles arbitrary: ms)
  case Nil
  have "fan_in (durable e) [] ms = (\<lambda>j. (Inr ms, j))" by (rule ext) simp
  then show ?case by (simp add: replays_return)
next
  case (Cons p handles)
  obtain c h where p: "p = (c, h)" by (cases p)
  let ?g = "\<lambda>x. case x of Inl err \<Rightarrow> (\<lambda>j. (Inl err, j))
      | Inr result \<Rightarrow> fan_in (durable e) handles (ms @ [Tool (tc_id c) result])"
  have "fan_in (durable e) (p # handles) ms =
      (\<lambda>j. case durable_await e h j of (x, j') \<Rightarrow> ?g x j')"
    by (rule ext) (simp add: p split: prod.splits sum.splits)
  moreover have "replays (?g x)" for x
    by (cases x) (simp_all add: replays_return Cons.IH)
  ultimately show ?case
    using replays_bind [OF replays_await, of ?g] by simp
qed

lemma replays_loop: "replays (research_loop fuel (durable e) depth ms)"
proof (induction fuel arbitrary: ms)
  case 0
  have "research_loop 0 (durable e) depth ms = (\<lambda>j. (None, j))" by (rule ext) simp
  then show ?case by (simp add: replays_return)
next
  case (Suc fuel)
  let ?join = "\<lambda>x. case x of Inl err \<Rightarrow> (\<lambda>j. (Some (Inl err), j))
      | Inr ms' \<Rightarrow> research_loop fuel (durable e) depth ms'"
  let ?batch = "\<lambda>r calls j. case fan_out (durable e) depth calls [] j of
      (handles, j') \<Rightarrow>
        (case fan_in (durable e) handles (ms @ [Assistant r]) j' of (x, j'') \<Rightarrow> ?join x j'')"
  let ?g = "\<lambda>x. case x of Inl err \<Rightarrow> (\<lambda>j. (Some (Inl err), j))
      | Inr r \<Rightarrow> (case tool_calls r of Some calls \<Rightarrow> ?batch r calls
                   | None \<Rightarrow> (\<lambda>j. (Some (Inr (content r)), j)))"
  have unfold: "research_loop (Suc fuel) (durable e) depth ms =
      (\<lambda>j. case durable_run e ms depth j of (x, j') \<Rightarrow> ?g x j')"
    by (rule ext) (simp split: prod.splits sum.splits option.splits)
  have join: "replays (?join x)" for x
    by (cases x) (simp_all add: replays_return Suc.IH)
  have batch: "replays (?batch r calls)" for r calls
    by (rule replays_bind [OF replays_fan_out]) (rule replays_bind [OF replays_fan_in join])
  have "replays (?g x)" for x
  proof (cases x)
    case (Inl err)
    then show ?thesis by (simp add: replays_return)
  next
    case (Inr r)
    then show ?thesis by (cases "tool_calls r") (simp_all add: replays_return batch)
  qed
  then show ?case
    unfolding unfold by (rule replays_bind [OF replays_run])
qed

lemma fresh_journal0: "fresh journal0"
  by (simp add: fresh_def journal0_def)

lemma suspended_resume: "suspended k j = resume k 0 j"
  by (simp add: suspended_def resume_def)

section \<open>The claims\<close>

text \<open>
  Claim C1, as stated: an invocation at depth 0 whose model always requests decomposition
  still returns a plain answer and spawns no child. The generator does not look at the
  depth before it spawns. With the model that always requests subtopic X1, the invocation
  for topic X at depth 0 starts a child with depth -1, awaits it, and has not returned
  after its first iteration; by \<open>always_env_never_returns\<close> it never returns.
\<close>

theorem research_depth0_spawns:
  "research (Suc 0) (live always_env) ''X'' 0 world0 =
     (None,
      \<lparr>trace = [Consult (initial_messages ''X''), Spawn 0 ''X1'' (- 1), Complete 0, Await 0],
       next_handle = 1, pending = []\<rparr>)"
  by (simp add: research_def live_run_def live_beginRpc_def live_await_def always_env_def
      world0_def finished_by_def js_minus_safe)

text \<open>
  Claim C1, amended: at depth 0, when the model answers every history at depth 0 with a
  message that has no \<^verbatim>\<open>tool_calls\<close> field, the invocation returns the content of the
  first answer after one consultation, and nothing else happens: no child is spawned.
\<close>

theorem research_depth0_plain_answer:
  assumes "\<forall>ms. \<exists>r. prompt e ms 0 = Inr r \<and> tool_calls r = None"
  shows "\<exists>r. prompt e (initial_messages topic) 0 = Inr r \<and>
     research (Suc fuel) (live e) topic 0 w =
       (Some (Inr (content r)), w\<lparr>trace := trace w @ [Consult (initial_messages topic)]\<rparr>)"
proof -
  from assms obtain r where "prompt e (initial_messages topic) 0 = Inr r" "tool_calls r = None"
    by blast
  then show ?thesis by (simp add: research_def live_run_def)
qed

theorem research_depth0_plain_answer_witness:
  "(\<forall>ms. \<exists>r. prompt plain_env ms 0 = Inr r \<and> tool_calls r = None) \<and>
   research (Suc 0) (live plain_env) ''X'' 0 world0 =
     (Some (Inr ''A''), world0\<lparr>trace := [Consult (initial_messages ''X'')]\<rparr>)"
proof -
  have h: "\<forall>ms. \<exists>r. prompt plain_env ms 0 = Inr r \<and> tool_calls r = None"
    by (simp add: plain_env_def)
  from research_depth0_plain_answer [OF h, of "''X''" 0 world0] h show ?thesis
    by (auto simp: plain_env_def world0_def)
qed

text \<open>
  Claim C2, as stated: at every depth above 0 each child is invoked with \<open>depth - 1\<close>. The
  depth is a JavaScript number: at depth 10000000000000000 the difference is not a double
  and rounds back, so both children of the scenario with two requests are spawned with the
  depth of their parent.
\<close>

theorem research_fan_out_large_depth:
  "research (Suc 0) (live two_env) ''X'' 10000000000000000 world0 =
     (None,
      \<lparr>trace = [Consult (initial_messages ''X''),
                Spawn 0 ''X1'' 10000000000000000, Spawn 1 ''X2'' 10000000000000000,
                Complete 1, Complete 0, Await 0, Await 1],
       next_handle = 2, pending = []\<rparr>)"
  by (simp add: research_def live_run_def live_beginRpc_def live_await_def two_env_def
      two_prompt_def two_calls_def initial_messages_def world0_def finished_by_def
      js_minus_rounds)

text \<open>
  Claim C2, amended: when, at a depth above 0 and not above \<open>2 ^ 53\<close>, the model answers a
  history with \<open>n \<ge> 1\<close> tool calls, the events that follow the consultation are exactly \<open>n\<close>
  spawns, one for each call in the order of the calls, each with the call's subtopic and
  \<open>depth - 1\<close>, on \<open>n\<close> consecutive fresh handles, and only completions and awaits follow
  until the next consultation. When all these children return, that next consultation
  takes place, and its history ends with one tool message for each pair of call and
  handle, which carries the identifier of the call and the result of the child behind the
  handle.
\<close>

theorem research_fan_out_batch:
  assumes "prompt e ms depth = Inr r" and "tool_calls r = Some calls"
    and "calls \<noteq> []" and "0 < depth" and "depth \<le> 2 ^ 53"
  shows "(\<exists>settle rest.
       trace (snd (research_loop (Suc fuel) (live e) depth ms w)) =
         trace w @ Consult ms #
           map (\<lambda>(c, h). Spawn h (tc_subtopic c) (depth - 1)) (batch (next_handle w) calls) @
           settle @ rest
       \<and> list_all settling settle \<and> (rest = [] \<or> is_Consult (hd rest)))
     \<and> map fst (batch (next_handle w) calls) = calls
     \<and> map snd (batch (next_handle w) calls) = [next_handle w ..< next_handle w + length calls]
     \<and> ((\<forall>x\<in>set (batch (next_handle w) calls). \<not> isl (child e (snd x))) \<longrightarrow>
          (\<exists>settle rest.
             trace (snd (research_loop (Suc (Suc fuel)) (live e) depth ms w)) =
               trace w @ Consult ms #
                 map (\<lambda>(c, h). Spawn h (tc_subtopic c) (depth - 1)) (batch (next_handle w) calls) @
                 settle @
                 Consult (ms @ Assistant r #
                   map (\<lambda>(c, h). Tool (tc_id c) (projr (child e h))) (batch (next_handle w) calls)) #
                 rest
             \<and> list_all settling settle))"
proof -
  from assms(4,5) have "\<bar>depth - 1\<bar> < 2 ^ 53" by simp
  then have dec: "js_minus depth 1 = depth - 1" by (rule js_minus_safe)
  have spawn: "spawn_event depth = (\<lambda>(c, h). Spawn h (tc_subtopic c) (depth - 1))"
    by (simp add: spawn_event_def dec)
  have entry: "tool_entry e = (\<lambda>(c, h). Tool (tc_id c) (projr (child e h)))"
    by (simp add: tool_entry_def)
  from loop_batch_shape [OF assms(1,2), of fuel w] obtain settle rest where
    "trace (snd (research_loop (Suc fuel) (live e) depth ms w)) =
       trace w @ Consult ms # map (spawn_event depth) (batch (next_handle w) calls) @ settle @ rest"
    "list_all settling settle" "rest = [] \<or> is_Consult (hd rest)"
    by auto
  then have first: "\<exists>settle rest.
       trace (snd (research_loop (Suc fuel) (live e) depth ms w)) =
         trace w @ Consult ms #
           map (\<lambda>(c, h). Spawn h (tc_subtopic c) (depth - 1)) (batch (next_handle w) calls) @
           settle @ rest
       \<and> list_all settling settle \<and> (rest = [] \<or> is_Consult (hd rest))"
    unfolding spawn by blast
  have handles: "map snd (batch (next_handle w) calls) = [next_handle w ..< next_handle w + length calls]"
    by (simp add: batch_def)
  have last: "\<exists>settle rest.
             trace (snd (research_loop (Suc (Suc fuel)) (live e) depth ms w)) =
               trace w @ Consult ms #
                 map (\<lambda>(c, h). Spawn h (tc_subtopic c) (depth - 1)) (batch (next_handle w) calls) @
                 settle @
                 Consult (ms @ Assistant r #
                   map (\<lambda>(c, h). Tool (tc_id c) (projr (child e h))) (batch (next_handle w) calls)) #
                 rest
             \<and> list_all settling settle"
    if "\<forall>x\<in>set (batch (next_handle w) calls). \<not> isl (child e (snd x))"
    using loop_next_consult [OF assms(1,2) that, of fuel] unfolding spawn entry .
  have calls: "map fst (batch (next_handle w) calls) = calls" by simp
  show ?thesis
  proof (intro conjI impI)
    show "map fst (batch (next_handle w) calls) = calls" by (rule calls)
  qed (rule first | rule handles | (rule last, assumption))+
qed

theorem research_fan_out_batch_witness:
  "\<exists>settle rest.
     trace (snd (research_loop (Suc (Suc 0)) (live two_env) 1 (initial_messages ''X'') world0)) =
       Consult (initial_messages ''X'') # Spawn 0 ''X1'' 0 # Spawn 1 ''X2'' 0 # settle @
         Consult (initial_messages ''X'' @
           [Assistant \<lparr>content = [], tool_calls = Some two_calls\<rparr>,
            Tool ''id1'' ''A1'', Tool ''id2'' ''A2'']) # rest
     \<and> list_all settling settle"
proof -
  have p: "prompt two_env (initial_messages ''X'') 1 = Inr \<lparr>content = [], tool_calls = Some two_calls\<rparr>"
    by (simp add: two_env_def two_prompt_def initial_messages_def)
  have t: "tool_calls \<lparr>content = [], tool_calls = Some two_calls\<rparr> = Some two_calls" by simp
  have n: "two_calls \<noteq> []" by (simp add: two_calls_def)
  have d: "(0::int) < 1" by simp
  have d': "(1::int) \<le> 2 ^ 53" by simp
  have c: "\<forall>x\<in>set (batch (next_handle world0) two_calls). \<not> isl (child two_env (snd x))"
    by (simp add: world0_def two_batch two_env_def)
  from research_fan_out_batch [OF p t n d d', of 0 world0] c obtain settle rest where
    "trace (snd (research_loop (Suc (Suc 0)) (live two_env) 1 (initial_messages ''X'') world0)) =
       trace world0 @ Consult (initial_messages ''X'') #
         map (\<lambda>(c, h). Spawn h (tc_subtopic c) (1 - 1)) (batch (next_handle world0) two_calls) @
         settle @
         Consult (initial_messages ''X'' @ Assistant \<lparr>content = [], tool_calls = Some two_calls\<rparr> #
           map (\<lambda>(c, h). Tool (tc_id c) (projr (child two_env h)))
             (batch (next_handle world0) two_calls)) # rest"
    "list_all settling settle"
    by blast
  then have "trace (snd (research_loop (Suc (Suc 0)) (live two_env) 1 (initial_messages ''X'') world0)) =
       Consult (initial_messages ''X'') # Spawn 0 ''X1'' 0 # Spawn 1 ''X2'' 0 # settle @
         Consult (initial_messages ''X'' @
           [Assistant \<lparr>content = [], tool_calls = Some two_calls\<rparr>,
            Tool ''id1'' ''A1'', Tool ''id2'' ''A2'']) # rest
     \<and> list_all settling settle"
    by (simp add: world0_def two_batch two_env_def del: research_loop.simps)
  then show ?thesis by blast
qed

text \<open>
  Claim C3: when all children of a batch return, the tool messages pushed on the history
  stand in the order of the calls of the model's answer, whatever the times \<open>f\<close> at which
  the children finish: the history of the next consultation is the old one, the answer,
  and one tool message for each call in order.
\<close>

theorem research_fan_in_order:
  assumes "prompt e ms depth = Inr r" and "tool_calls r = Some calls"
    and "\<forall>x\<in>set (batch (next_handle w) calls). \<not> isl (child e (snd x))"
  shows "\<exists>settle rest entries.
     trace (snd (research_loop (Suc (Suc fuel)) (live (e\<lparr>finish := f\<rparr>)) depth ms w)) =
       trace w @ Consult ms # map (spawn_event depth) (batch (next_handle w) calls) @ settle
         @ Consult (ms @ Assistant r # entries) # rest
     \<and> list_all settling settle
     \<and> entries = map (tool_entry e) (batch (next_handle w) calls)
     \<and> map tool_id entries = map (\<lambda>c. Some (tc_id c)) calls"
proof -
  let ?e = "e\<lparr>finish := f\<rparr>"
  have p: "prompt ?e ms depth = Inr r" using assms(1) by simp
  have entry: "tool_entry ?e = tool_entry e" by (simp add: tool_entry_def)
  show ?thesis
  proof (cases rule: loop_step [of ?e ms depth "Suc fuel" w])
    case (oracle_failed err)
    with p show ?thesis by simp
  next
    case (answered r')
    with p assms(2) show ?thesis by simp
  next
    case (child_failed r' calls' settle w' err w2)
    with p assms(2) have "calls' = calls" by simp
    with child_failed(5) assms(3) show ?thesis by auto
  next
    case (continued r' calls' settle w')
    with p assms(2) have same: "r' = r" "calls' = calls" by simp_all
    let ?entries = "map (tool_entry e) (batch (next_handle w) calls)"
    have eq: "research_loop (Suc (Suc fuel)) (live ?e) depth ms w =
        research_loop (Suc fuel) (live ?e) depth (ms @ Assistant r # ?entries) w'"
      using continued(6) same entry by simp
    from loop_trace_head [of fuel ?e depth "ms @ Assistant r # ?entries" w'] obtain es where
      "trace (snd (research_loop (Suc fuel) (live ?e) depth (ms @ Assistant r # ?entries) w')) =
         trace w' @ Consult (ms @ Assistant r # ?entries) # es" by blast
    then have "trace (snd (research_loop (Suc (Suc fuel)) (live ?e) depth ms w)) =
       trace w @ Consult ms # map (spawn_event depth) (batch (next_handle w) calls) @ settle
         @ Consult (ms @ Assistant r # ?entries) # es"
      unfolding eq using continued(4) same by simp
    moreover have "map tool_id ?entries = map (\<lambda>c. Some (tc_id c)) calls"
      by (rule tool_id_entries)
    ultimately show ?thesis using continued(3) by blast
  qed
qed

theorem research_fan_in_order_witness:
  "\<exists>settle rest.
     trace (snd (research_loop (Suc (Suc 0)) (live (two_env\<lparr>finish := (\<lambda>h. 7 - h)\<rparr>)) 1
       (initial_messages ''X'') world0)) =
       Consult (initial_messages ''X'') # Spawn 0 ''X1'' 0 # Spawn 1 ''X2'' 0 # settle
         @ Consult (initial_messages ''X'' @
           [Assistant \<lparr>content = [], tool_calls = Some two_calls\<rparr>,
            Tool ''id1'' ''A1'', Tool ''id2'' ''A2'']) # rest
     \<and> list_all settling settle"
proof -
  have p: "prompt two_env (initial_messages ''X'') 1 = Inr \<lparr>content = [], tool_calls = Some two_calls\<rparr>"
    by (simp add: two_env_def two_prompt_def initial_messages_def)
  have t: "tool_calls \<lparr>content = [], tool_calls = Some two_calls\<rparr> = Some two_calls" by simp
  have c: "\<forall>x\<in>set (batch (next_handle world0) two_calls). \<not> isl (child two_env (snd x))"
    by (simp add: world0_def two_batch two_env_def)
  from research_fan_in_order [OF p t c, where f = "\<lambda>h. 7 - h" and fuel = 0]
  obtain settle rest where
    "trace (snd (research_loop (Suc (Suc 0)) (live (two_env\<lparr>finish := (\<lambda>h. 7 - h)\<rparr>)) 1
       (initial_messages ''X'') world0)) =
       trace world0 @ Consult (initial_messages ''X'') #
         map (spawn_event 1) (batch (next_handle world0) two_calls) @ settle @
         Consult (initial_messages ''X'' @ Assistant \<lparr>content = [], tool_calls = Some two_calls\<rparr> #
           map (tool_entry two_env) (batch (next_handle world0) two_calls)) # rest"
    "list_all settling settle"
    by blast
  then have "trace (snd (research_loop (Suc (Suc 0)) (live (two_env\<lparr>finish := (\<lambda>h. 7 - h)\<rparr>)) 1
       (initial_messages ''X'') world0)) =
       Consult (initial_messages ''X'') # Spawn 0 ''X1'' 0 # Spawn 1 ''X2'' 0 # settle
         @ Consult (initial_messages ''X'' @
           [Assistant \<lparr>content = [], tool_calls = Some two_calls\<rparr>,
            Tool ''id1'' ''A1'', Tool ''id2'' ''A2'']) # rest
     \<and> list_all settling settle"
    by (simp add: world0_def two_batch spawn_event_def tool_entry_def two_env_def js_minus_safe
        del: research_loop.simps)
  then show ?thesis by blast
qed

text \<open>
  Claim C4, as stated: when the model's answer contains no decomposition request, the
  invocation returns its content. An answer A whose \<^verbatim>\<open>tool_calls\<close> is the empty array
  contains no request, but the array is truthy: nothing is spawned, the model is consulted
  again with the answer pushed on the history, and the invocation returns the later answer B.
\<close>

theorem research_empty_tool_calls:
  "research (Suc (Suc 0)) (live empty_calls_env) ''X'' 0 world0 =
     (Some (Inr ''B''),
      \<lparr>trace = [Consult (initial_messages ''X''),
                Consult (initial_messages ''X'' @ [Assistant \<lparr>content = ''A'', tool_calls = Some []\<rparr>])],
       next_handle = 0, pending = []\<rparr>)"
  by (simp add: research_def live_run_def empty_calls_env_def world0_def initial_messages_def)

text \<open>
  Claim C4, amended: when the model's answer has no \<^verbatim>\<open>tool_calls\<close> field, the invocation
  returns its content; every invocation that returns a string returns the content of the
  answer to its last consultation, an answer without that field; and for topic X at depth
  0 with the plain answer A the result is A after one consultation, with no child spawned.
\<close>

theorem research_returns_plain_answer:
  "(\<forall>ms r fuel w. prompt e ms depth = Inr r \<and> tool_calls r = None \<longrightarrow>
      research_loop (Suc fuel) (live e) depth ms w =
        (Some (Inr (content r)), w\<lparr>trace := trace w @ [Consult ms]\<rparr>))
   \<and> (\<forall>fuel topic w w' s. research fuel (live e) topic depth w = (Some (Inr s), w') \<longrightarrow>
        (\<exists>es ms r. trace w' = trace w @ es @ [Consult ms]
           \<and> prompt e ms depth = Inr r \<and> tool_calls r = None \<and> content r = s))
   \<and> (\<forall>fuel w. depth = 0 \<and> prompt e (initial_messages ''X'') 0 = Inr \<lparr>content = ''A'', tool_calls = None\<rparr> \<longrightarrow>
        research (Suc fuel) (live e) ''X'' depth w =
          (Some (Inr ''A''), w\<lparr>trace := trace w @ [Consult (initial_messages ''X'')]\<rparr>))"
proof (intro conjI allI impI)
  fix ms r fuel w
  assume "prompt e ms depth = Inr r \<and> tool_calls r = None"
  then show "research_loop (Suc fuel) (live e) depth ms w =
        (Some (Inr (content r)), w\<lparr>trace := trace w @ [Consult ms]\<rparr>)"
    by (simp add: live_run_def)
next
  fix fuel topic w w' s
  assume "research fuel (live e) topic depth w = (Some (Inr s), w')"
  then show "\<exists>es ms r. trace w' = trace w @ es @ [Consult ms]
           \<and> prompt e ms depth = Inr r \<and> tool_calls r = None \<and> content r = s"
    unfolding research_def by (rule loop_success_origin)
next
  fix fuel w
  assume "depth = 0 \<and> prompt e (initial_messages ''X'') 0 = Inr \<lparr>content = ''A'', tool_calls = None\<rparr>"
  then show "research (Suc fuel) (live e) ''X'' depth w =
          (Some (Inr ''A''), w\<lparr>trace := trace w @ [Consult (initial_messages ''X'')]\<rparr>)"
    by (simp add: research_def live_run_def)
qed

theorem research_returns_plain_answer_witness:
  "research_loop (Suc 0) (live plain_env) 0 (initial_messages ''X'') world0 =
     (Some (Inr ''A''), world0\<lparr>trace := [Consult (initial_messages ''X'')]\<rparr>)
   \<and> research (Suc 0) (live plain_env) ''X'' 0 world0 =
     (Some (Inr ''A''), world0\<lparr>trace := [Consult (initial_messages ''X'')]\<rparr>)"
proof -
  have p: "prompt plain_env (initial_messages ''X'') 0 = Inr \<lparr>content = ''A'', tool_calls = None\<rparr>"
    by (simp add: plain_env_def)
  from research_returns_plain_answer [of plain_env 0]
  have a: "\<forall>ms r fuel w. prompt plain_env ms 0 = Inr r \<and> tool_calls r = None \<longrightarrow>
      research_loop (Suc fuel) (live plain_env) 0 ms w =
        (Some (Inr (content r)), w\<lparr>trace := trace w @ [Consult ms]\<rparr>)"
    and c: "\<forall>fuel w. (0::int) = 0 \<and>
        prompt plain_env (initial_messages ''X'') 0 = Inr \<lparr>content = ''A'', tool_calls = None\<rparr> \<longrightarrow>
        research (Suc fuel) (live plain_env) ''X'' 0 w =
          (Some (Inr ''A''), w\<lparr>trace := trace w @ [Consult (initial_messages ''X'')]\<rparr>)"
    by blast+
  from a p have "research_loop (Suc 0) (live plain_env) 0 (initial_messages ''X'') world0 =
      (Some (Inr (content \<lparr>content = ''A'', tool_calls = None\<rparr>)),
       world0\<lparr>trace := trace world0 @ [Consult (initial_messages ''X'')]\<rparr>)"
    by (metis response.select_convs(2))
  moreover from c p have "research (Suc 0) (live plain_env) ''X'' 0 world0 =
      (Some (Inr ''A''), world0\<lparr>trace := trace world0 @ [Consult (initial_messages ''X'')]\<rparr>)"
    by blast
  ultimately show ?thesis by (simp add: world0_def del: research_loop.simps)
qed

text \<open>
  Claim C5, as stated: the parent surfaces the first child failure. With two children that
  both throw, the second before the first, the invocation ends with the error of the first
  child: the handles are awaited in the order of the calls, and the error of the child
  that threw first in time is never seen.
\<close>

theorem research_surfaces_request_order:
  "research (Suc 0) (live both_fail_env) ''X'' 1 world0 =
     (Some (Inl (Failure ''E0'')),
      \<lparr>trace = [Consult (initial_messages ''X''), Spawn 0 ''X1'' 0, Spawn 1 ''X2'' 0,
                Complete 1, Complete 0, Await 0],
       next_handle = 2, pending = []\<rparr>)"
  by (simp add: research_def live_run_def live_beginRpc_def live_await_def both_fail_env_def
      two_prompt_def two_calls_def initial_messages_def world0_def finished_by_def
      js_minus_safe)

text \<open>
  Claim C5, amended: when the child of one call of a batch throws and the children of all
  earlier calls return, the invocation ends with the error of that child, the first
  failure in the order of the calls, whatever the times \<open>f\<close> at which the children finish
  or throw. It ends when the await of that child is reached: the handles of the earlier
  calls and this one have been awaited, in order, and no later one. After the spawns of
  the batch the trace holds completions and awaits only: the model is not consulted again.
  The outcome is the error alone; the results that earlier children returned are not part
  of it.
\<close>

theorem research_fail_fast:
  assumes "prompt e ms depth = Inr r" and "tool_calls r = Some calls"
    and "batch (next_handle w) calls = pre @ (c, h) # post"
    and "\<forall>x\<in>set pre. \<not> isl (child e (snd x))"
    and "child e h = Inl err"
  shows "\<exists>settle w'.
     research_loop (Suc fuel) (live (e\<lparr>finish := f\<rparr>)) depth ms w = (Some (Inl err), w')
     \<and> trace w' = trace w @ Consult ms # map (spawn_event depth) (batch (next_handle w) calls) @ settle
     \<and> list_all settling settle
     \<and> filter is_Await settle = map (\<lambda>x. Await (snd x)) (pre @ [(c, h)])"
proof -
  let ?e = "e\<lparr>finish := f\<rparr>"
  let ?hs = "batch (next_handle w) calls"
  let ?w2 = "w\<lparr>trace := trace w @ Consult ms # map (spawn_event depth) ?hs,
        next_handle := next_handle w + length calls,
        pending := pending w @ map snd ?hs\<rparr>"
  have ok: "\<forall>x\<in>set pre. \<not> isl (child ?e (snd x))" using assms(4) by simp
  have bad: "child ?e h = Inl err" using assms(5) by simp
  have out: "fan_out (live ?e) depth calls [] (w\<lparr>trace := trace w @ [Consult ms]\<rparr>) = (?hs, ?w2)"
    by (simp add: fan_out_live_acc)
  from fan_in_live_fail_world [OF ok bad, of c post "ms @ [Assistant r]" ?w2]
  obtain settle pend where
    run: "fan_in (live ?e) ?hs (ms @ [Assistant r]) ?w2 =
       (Inl err, ?w2\<lparr>trace := trace ?w2 @ settle, pending := pend\<rparr>)"
    and settle: "list_all settling settle"
      "filter is_Await settle = map (\<lambda>x. Await (snd x)) (pre @ [(c, h)])"
    unfolding assms(3) by blast
  have "research_loop (Suc fuel) (live ?e) depth ms w =
      (Some (Inl err), ?w2\<lparr>trace := trace ?w2 @ settle, pending := pend\<rparr>)"
    using assms(1,2) out run by (simp add: live_run_def)
  moreover have "trace (?w2\<lparr>trace := trace ?w2 @ settle, pending := pend\<rparr>) =
      trace w @ Consult ms # map (spawn_event depth) ?hs @ settle"
    by simp
  ultimately show ?thesis using settle by blast
qed

theorem research_fail_fast_witness:
  "\<exists>settle w'.
     research_loop (Suc (Suc 0)) (live (failing_env\<lparr>finish := (\<lambda>h. 7 - h)\<rparr>)) 2
       (initial_messages ''X'') world0 =
       (Some (Inl (Failure ''OracleFailure'')), w')
     \<and> trace w' = Consult (initial_messages ''X'') # Spawn 0 ''X1'' 1 # Spawn 1 ''X2'' 1 # settle
     \<and> list_all settling settle
     \<and> filter is_Await settle = [Await 0, Await 1]"
proof -
  have p: "prompt failing_env (initial_messages ''X'') 2 = Inr \<lparr>content = [], tool_calls = Some two_calls\<rparr>"
    by (simp add: failing_env_def two_prompt_def initial_messages_def)
  have t: "tool_calls \<lparr>content = [], tool_calls = Some two_calls\<rparr> = Some two_calls" by simp
  have b: "batch (next_handle world0) two_calls =
      [(\<lparr>tc_id = ''id1'', tc_subtopic = ''X1''\<rparr>, 0)] @ (\<lparr>tc_id = ''id2'', tc_subtopic = ''X2''\<rparr>, Suc 0) # []"
    by (simp add: world0_def two_batch)
  have ok: "\<forall>x\<in>set [(\<lparr>tc_id = ''id1'', tc_subtopic = ''X1''\<rparr>, 0::nat)]. \<not> isl (child failing_env (snd x))"
    by (simp add: failing_env_def)
  have bad: "child failing_env (Suc 0) = Inl (Failure ''OracleFailure'')"
    by (simp add: failing_env_def)
  from research_fail_fast [OF p t b ok bad, where fuel = "Suc 0" and f = "\<lambda>h. 7 - h"]
  obtain settle w' where
    "research_loop (Suc (Suc 0)) (live (failing_env\<lparr>finish := (\<lambda>h. 7 - h)\<rparr>)) 2
       (initial_messages ''X'') world0 = (Some (Inl (Failure ''OracleFailure'')), w')"
    "trace w' = trace world0 @ Consult (initial_messages ''X'') #
       map (spawn_event 2) (batch (next_handle world0) two_calls) @ settle"
    "list_all settling settle"
    "filter is_Await settle = map (\<lambda>x. Await (snd x))
       ([(\<lparr>tc_id = ''id1'', tc_subtopic = ''X1''\<rparr>, 0)] @ [(\<lparr>tc_id = ''id2'', tc_subtopic = ''X2''\<rparr>, Suc 0)])"
    by blast
  then have "research_loop (Suc (Suc 0)) (live (failing_env\<lparr>finish := (\<lambda>h. 7 - h)\<rparr>)) 2
       (initial_messages ''X'') world0 = (Some (Inl (Failure ''OracleFailure'')), w')
     \<and> trace w' = Consult (initial_messages ''X'') # Spawn 0 ''X1'' 1 # Spawn 1 ''X2'' 1 # settle
     \<and> list_all settling settle
     \<and> filter is_Await settle = [Await 0, Await 1]"
    by (simp add: world0_def two_batch spawn_event_def js_minus_safe del: research_loop.simps)
  then show ?thesis by blast
qed

text \<open>
  Claim C6: in the trace of an invocation, between two consultations of the model no
  spawn follows an await: all handles of a batch are created before one of them is awaited.
\<close>

theorem research_fan_out_before_fan_in:
  "\<exists>es. trace (snd (research fuel (live e) topic depth w)) = trace w @ es
     \<and> batches_ordered False es"
  using loop_batches_ordered [of fuel e depth "initial_messages topic" w]
  by (auto simp: research_def)

theorem research_fan_out_before_fan_in_witness:
  "batches_ordered False (trace (snd (research (Suc (Suc 0)) (live two_env) ''X'' 1 world0)))"
  using research_fan_out_before_fan_in [of "Suc (Suc 0)" two_env "''X''" 1 world0]
  by (auto simp: world0_def)

text \<open>
  Claim C7, as stated: an invocation with a negative depth or an empty topic is rejected
  with an InvalidInput failure before the model is consulted. The generator checks neither:
  with the empty topic and depth -1 it consults the model and returns its answer.
\<close>

theorem research_accepts_invalid_input:
  "research (Suc 0) (live plain_env) [] (- 1) world0 =
     (Some (Inr ''A''), \<lparr>trace = [Consult (initial_messages [])], next_handle = 0, pending = []\<rparr>)"
  by (simp add: research_def live_run_def plain_env_def world0_def)

text \<open>
  Claim C7, amended: an invocation with a negative depth or an empty topic is treated as
  any other. Its first step consults the model with the two initial messages, and when it
  fails, the error is one that the model or a child has thrown.
\<close>

theorem research_validates_nothing:
  assumes "depth < 0 \<or> topic = []" and "0 < fuel"
  shows "(\<exists>es. trace (snd (research fuel (live e) topic depth w)) =
            trace w @ Consult (initial_messages topic) # es)
     \<and> (\<forall>err. fst (research fuel (live e) topic depth w) = Some (Inl err) \<longrightarrow>
            (\<exists>ms. prompt e ms depth = Inl err) \<or> (\<exists>h. child e h = Inl err))"
proof -
  from assms(2) obtain n where n: "fuel = Suc n" by (cases fuel) auto
  have "\<exists>es. trace (snd (research fuel (live e) topic depth w)) =
            trace w @ Consult (initial_messages topic) # es"
    unfolding n research_def by (rule loop_trace_head)
  moreover have "\<forall>err. fst (research fuel (live e) topic depth w) = Some (Inl err) \<longrightarrow>
            (\<exists>ms. prompt e ms depth = Inl err) \<or> (\<exists>h. child e h = Inl err)"
    unfolding research_def using loop_failure_origin by blast
  ultimately show ?thesis by blast
qed

theorem research_validates_nothing_witness:
  "((- 1 :: int) < 0 \<or> ([] :: string) = []) \<and> 0 < Suc 0 \<and>
   (\<exists>es. trace (snd (research (Suc 0) (live plain_env) [] (- 1) world0)) =
      Consult (initial_messages []) # es)"
  using research_validates_nothing [of "- 1" "[]" "Suc 0" plain_env world0]
  by (simp add: world0_def)

text \<open>
  Claim C8: the histories with which an invocation consults the model form a chain. The
  first is the pair of initial messages; each next one is the one before, unchanged, with
  the assistant message of the answer and one tool message for each of its calls pushed at
  the end.
\<close>

theorem research_history_append_only:
  "\<exists>es. trace (snd (research fuel (live e) topic depth w)) = trace w @ es
     \<and> (consulted es = [] \<or> hd (consulted es) = initial_messages topic)
     \<and> successively appended (consulted es)"
  using loop_history_chain [of fuel e depth "initial_messages topic" w]
  by (simp add: research_def)

theorem research_history_append_only_witness:
  "successively appended
     (consulted (trace (snd (research (Suc (Suc 0)) (live two_env) ''X'' 1 world0))))"
  using research_history_append_only [of "Suc (Suc 0)" two_env "''X''" 1 world0]
  by (auto simp: world0_def)

text \<open>
  Claim C9: take the journal that an uninterrupted run of an invocation leaves, and keep
  of it what the runtime holds when the process is lost after \<open>k\<close> steps, for any \<open>k\<close>: after
  a consultation, after a spawn, or between the awaits of a batch. Running the generator
  again from its first line on that journal gives the result of the uninterrupted run and
  ends in the same journal, so no step is executed a second time.
\<close>

theorem research_replay:
  "research fuel (durable e) topic depth
     (suspended k (snd (research fuel (durable e) topic depth journal0))) =
   research fuel (durable e) topic depth journal0"
proof -
  obtain r F where run: "research fuel (durable e) topic depth journal0 = (r, F)"
    by (cases "research fuel (durable e) topic depth journal0")
  have "research fuel (durable e) topic depth =
      research_loop fuel (durable e) depth (initial_messages topic)"
    by (rule ext) (simp add: research_def)
  then have "replays (research fuel (durable e) topic depth)"
    by (simp add: replays_loop)
  with run fresh_journal0 have F: "fresh F"
    and sim: "\<And>G k. cut (seq F) G = F \<Longrightarrow>
      research fuel (durable e) topic depth (resume k (seq journal0) G) = (r, resume k (seq F) G)"
    unfolding replays_def by blast+
  from sim [OF cut_self [OF F], of k] have
    "research fuel (durable e) topic depth (resume k 0 F) = (r, F)"
    by (simp add: journal0_def resume_ahead [OF F])
  then show ?thesis by (simp add: run suspended_resume)
qed

theorem research_replay_witness:
  "fst (research (Suc (Suc 0)) (durable two_env) ''X'' 1
     (suspended 4 (snd (research (Suc (Suc 0)) (durable two_env) ''X'' 1 journal0)))) =
   Some (Inr ''Synthesis(A1,A2)'')"
proof -
  have "fst (research (Suc (Suc 0)) (durable two_env) ''X'' 1 journal0) = Some (Inr ''Synthesis(A1,A2)'')"
    by (simp add: research_def durable_def durable_run_def durable_beginRpc_def durable_await_def
        two_env_def two_prompt_def two_calls_def journal0_def initial_messages_def)
  with research_replay [of "Suc (Suc 0)" two_env "''X''" 1 4] show ?thesis by simp
qed

text \<open>
  Claim C10: whatever the topic and the depth, the first step of an invocation consults
  the model with the two initial messages; every spawn, await and return comes after it.
  A count of 0 iterations describes an invocation that has not taken its first step.
\<close>

theorem research_consults_first:
  "0 < fuel \<Longrightarrow>
     \<exists>es. trace (snd (research fuel (live e) topic depth w)) =
       trace w @ Consult (initial_messages topic) # es"
  using loop_trace_head [of "fuel - 1" e depth "initial_messages topic" w]
  by (simp add: research_def)

theorem research_consults_first_witness:
  "\<exists>es. trace (snd (research (Suc 0) (live always_env) ''X'' 0 world0)) =
     Consult (initial_messages ''X'') # es"
  using research_consults_first [of "Suc 0" always_env "''X''" 0 world0]
  by (simp add: world0_def)

end
